theory Spec2Isabelle
  imports Complex_Main "HOL-Library.Word"
begin

unbundle bit_operations_syntax

section \<open>Python values and errors\<close>

text \<open>
  The model follows \<^verbatim>\<open>hash/cellular_automaton.py\<close>. Python integers are \<open>int\<close>,
  a \<^verbatim>\<open>bytes\<close> object is a list of 8-bit words (its type admits only 0..255), a
  \<^verbatim>\<open>float\<close> is a \<open>real\<close>, a \<^verbatim>\<open>str\<close> used as a signal state is a \<open>string\<close>.
  Every place where the interpreter can raise is a branch returning \<open>Inl\<close>.

  Two things are outside the model and are stated here once. The text argument of
  \<^verbatim>\<open>traffic_adaptive_hash\<close> is represented by its UTF-8 encoding (the result of
  \<^verbatim>\<open>input_data.encode('utf-8')\<close>); all statements quantify over arbitrary byte
  sequences. A float is the real number it denotes: comparisons are exact, and so is the
  product \<^verbatim>\<open>density * 64\<close> (a scaling by a power of two); the other float products and
  quotients are rounded to the nearest double, ties to even, as IEEE 754 arithmetic does.
  The values \<^verbatim>\<open>inf\<close> and \<^verbatim>\<open>nan\<close>, and results beyond the largest double, are not
  represented.
\<close>

datatype py_error = ValueError | IndexError | ZeroDivisionError

type_synonym byte = "8 word"

text \<open>The float literals \<^verbatim>\<open>0.3\<close> and \<^verbatim>\<open>0.7\<close> denote the nearest doubles,
  \<^verbatim>\<open>0x1.3333333333333p-2\<close> and \<^verbatim>\<open>0x1.6666666666666p-1\<close>.\<close>

definition lit_0_3 :: real where
  "lit_0_3 = 5404319552844595 / 18014398509481984"

definition lit_0_7 :: real where
  "lit_0_7 = 3152519739159347 / 4503599627370496"

text \<open>\<^verbatim>\<open>int(x)\<close> on a float truncates towards zero.\<close>

definition py_int :: "real \<Rightarrow> int" where
  "py_int x = (if 0 \<le> x then \<lfloor>x\<rfloor> else \<lceil>x\<rceil>)"

text \<open>Rounding to the nearest double. A double of exponent \<open>e\<close> is an integer multiple of
  \<open>2 ^ (e - 52)\<close>, the exponent of a subnormal being -1022; a real is rounded to the nearest
  such multiple, a tie going to the even one.\<close>

definition round_half_even :: "real \<Rightarrow> int" where
  "round_half_even y =
     (let f = \<lfloor>y\<rfloor>
      in if y - of_int f < 1 / 2 then f
         else if 1 / 2 < y - of_int f then f + 1
         else if even f then f else f + 1)"

definition float_exponent :: "real \<Rightarrow> int" where
  "float_exponent x = max \<lfloor>log 2 \<bar>x\<bar>\<rfloor> (- 1022)"

definition round_double :: "real \<Rightarrow> real" where
  "round_double x =
     (if x = 0 then 0
      else (let ulp = 2 powr real_of_int (float_exponent x - 52)
            in real_of_int (round_half_even (x / ulp)) * ulp))"

text \<open>\<^verbatim>\<open>x * y\<close> and \<^verbatim>\<open>x / y\<close> on floats; \<^verbatim>\<open>float(n)\<close> of an integer; \<^verbatim>\<open>a / b\<close> on
  integers, which rounds the exact quotient.\<close>

definition fmul :: "real \<Rightarrow> real \<Rightarrow> real" where
  "fmul x y = round_double (x * y)"

definition fdiv :: "real \<Rightarrow> real \<Rightarrow> real" where
  "fdiv x y = round_double (x / y)"

definition float_of_int :: "int \<Rightarrow> real" where
  "float_of_int n = round_double (real_of_int n)"

definition int_truediv :: "int \<Rightarrow> int \<Rightarrow> real" where
  "int_truediv a b = round_double (real_of_int a / real_of_int b)"

text \<open>\<^verbatim>\<open>a % b\<close>: the result has the sign of the divisor, as \<open>mod\<close> on \<open>int\<close>.\<close>

definition py_mod :: "int \<Rightarrow> int \<Rightarrow> py_error + int" where
  "py_mod a b = (if b = 0 then Inl ZeroDivisionError else Inr (a mod b))"

text \<open>\<^verbatim>\<open>a >> n\<close>: a negative shift count raises ValueError.\<close>

definition py_rshift :: "int \<Rightarrow> int \<Rightarrow> py_error + int" where
  "py_rshift a n = (if n < 0 then Inl ValueError else Inr (drop_bit (nat n) a))"

text \<open>\<^verbatim>\<open>xs[k]\<close>: an index from \<open>-len\<close> to \<open>len - 1\<close> is accepted, negative ones
  counting from the end; anything else raises IndexError.\<close>

definition getitem :: "int list \<Rightarrow> int \<Rightarrow> py_error + int" where
  "getitem xs k =
     (if 0 \<le> k \<and> k < int (length xs) then Inr (xs ! nat k)
      else if k < 0 \<and> - int (length xs) \<le> k then Inr (xs ! nat (int (length xs) + k))
      else Inl IndexError)"

text \<open>\<^verbatim>\<open>bytes([..])\<close> and the assignment to a \<^verbatim>\<open>bytearray\<close> slot accept only
  values in \<open>range(256)\<close>.\<close>

definition bytes_of_ints :: "int list \<Rightarrow> py_error + byte list" where
  "bytes_of_ints xs =
     (if list_all (\<lambda>x. 0 \<le> x \<and> x < 256) xs then Inr (map word_of_int xs)
      else Inl ValueError)"

text \<open>A loop that appends \<open>f x\<close> for each \<open>x\<close> in turn and stops at the first error.\<close>

fun for_append :: "('a \<Rightarrow> py_error + 'b) \<Rightarrow> 'a list \<Rightarrow> py_error + 'b list" where
  "for_append f [] = Inr []"
| "for_append f (x # xs) =
     (case f x of
        Inl e \<Rightarrow> Inl e
      | Inr y \<Rightarrow> (case for_append f xs of Inl e \<Rightarrow> Inl e | Inr ys \<Rightarrow> Inr (y # ys)))"

text \<open>\<^verbatim>\<open>bytes.hex()\<close>: two lowercase hexadecimal digits per byte.\<close>

definition hex_digit :: "nat \<Rightarrow> char" where
  "hex_digit n = ''0123456789abcdef'' ! n"

definition hex :: "byte list \<Rightarrow> string" where
  "hex bs = concat (map (\<lambda>b. [hex_digit (unat b div 16), hex_digit (unat b mod 16)]) bs)"

section \<open>SHA-256 (\<^verbatim>\<open>hashlib.sha256\<close>), after FIPS 180-4\<close>

type_synonym w32 = "32 word"

text \<open>The 64 round constants and the 8 initial hash values, in decimal: the first 32 bits
  of the fractional parts of the cube roots of the first 64 primes and of the square roots
  of the first 8.\<close>

definition sha256_K :: "w32 list" where
  "sha256_K =
    [1116352408, 1899447441, 3049323471, 3921009573, 961987163, 1508970993,
     2453635748, 2870763221, 3624381080, 310598401, 607225278, 1426881987,
     1925078388, 2162078206, 2614888103, 3248222580, 3835390401, 4022224774,
     264347078, 604807628, 770255983, 1249150122, 1555081692, 1996064986,
     2554220882, 2821834349, 2952996808, 3210313671, 3336571891, 3584528711,
     113926993, 338241895, 666307205, 773529912, 1294757372, 1396182291,
     1695183700, 1986661051, 2177026350, 2456956037, 2730485921, 2820302411,
     3259730800, 3345764771, 3516065817, 3600352804, 4094571909, 275423344,
     430227734, 506948616, 659060556, 883997877, 958139571, 1322822218,
     1537002063, 1747873779, 1955562222, 2024104815, 2227730452, 2361852424,
     2428436474, 2756734187, 3204031479, 3329325298]"

definition sha256_H0 :: "w32 list" where
  "sha256_H0 =
    [1779033703, 3144134277, 1013904242, 2773480762, 1359893119, 2600822924,
     528734635, 1541459225]"

definition Ch :: "w32 \<Rightarrow> w32 \<Rightarrow> w32 \<Rightarrow> w32" where
  "Ch x y z = (x AND y) XOR (NOT x AND z)"

definition Maj :: "w32 \<Rightarrow> w32 \<Rightarrow> w32 \<Rightarrow> w32" where
  "Maj x y z = (x AND y) XOR (x AND z) XOR (y AND z)"

definition Sigma0 :: "w32 \<Rightarrow> w32" where
  "Sigma0 x = word_rotr 2 x XOR word_rotr 13 x XOR word_rotr 22 x"

definition Sigma1 :: "w32 \<Rightarrow> w32" where
  "Sigma1 x = word_rotr 6 x XOR word_rotr 11 x XOR word_rotr 25 x"

definition sigma0 :: "w32 \<Rightarrow> w32" where
  "sigma0 x = word_rotr 7 x XOR word_rotr 18 x XOR drop_bit 3 x"

definition sigma1 :: "w32 \<Rightarrow> w32" where
  "sigma1 x = word_rotr 17 x XOR word_rotr 19 x XOR drop_bit 10 x"

definition length_bytes :: "nat \<Rightarrow> byte list" where
  "length_bytes n =
     map (\<lambda>i. ucast (drop_bit (8 * (7 - i)) (word_of_nat n :: 64 word))) [0..<8]"

definition pad_message :: "byte list \<Rightarrow> byte list" where
  "pad_message m =
     m @ [0x80] @ replicate ((119 - length m mod 64) mod 64) 0 @ length_bytes (8 * length m)"

definition blocks :: "byte list \<Rightarrow> byte list list" where
  "blocks m = map (\<lambda>k. take 64 (drop (64 * k) m)) [0..<length m div 64]"

definition word_of_bytes :: "byte list \<Rightarrow> w32" where
  "word_of_bytes bs = foldl (\<lambda>w b. push_bit 8 w OR ucast b) 0 bs"

definition bytes_of_word :: "w32 \<Rightarrow> byte list" where
  "bytes_of_word w = map (\<lambda>i. ucast (drop_bit (8 * (3 - i)) w)) [0..<4]"

fun extend_schedule :: "nat \<Rightarrow> w32 list \<Rightarrow> w32 list" where
  "extend_schedule 0 w = w"
| "extend_schedule (Suc n) w =
     (let t = length w
      in extend_schedule n
           (w @ [sigma1 (w ! (t - 2)) + w ! (t - 7) + sigma0 (w ! (t - 15)) + w ! (t - 16)]))"

definition schedule :: "byte list \<Rightarrow> w32 list" where
  "schedule blk =
     extend_schedule 48 (map (\<lambda>k. word_of_bytes (take 4 (drop (4 * k) blk))) [0..<16])"

definition sha256_round :: "w32 \<times> w32 \<Rightarrow> w32 list \<Rightarrow> w32 list" where
  "sha256_round kw v =
     (let a = v ! 0; b = v ! 1; c = v ! 2; d = v ! 3;
          e = v ! 4; f = v ! 5; g = v ! 6; h = v ! 7;
          t1 = h + Sigma1 e + Ch e f g + fst kw + snd kw;
          t2 = Sigma0 a + Maj a b c
      in [t1 + t2, a, b, c, d + t1, e, f, g])"

definition compress :: "byte list \<Rightarrow> w32 list \<Rightarrow> w32 list" where
  "compress blk hs = map2 (+) hs (fold sha256_round (zip sha256_K (schedule blk)) hs)"

definition sha256 :: "byte list \<Rightarrow> byte list" where
  "sha256 m = concat (map bytes_of_word (fold compress (blocks (pad_message m)) sha256_H0))"

section \<open>The class \<^verbatim>\<open>TrafficAdaptiveCA\<close>\<close>

record TrafficAdaptiveCA =
  size_ca :: nat
  state_ca :: "int list"
  rule_ca :: int
  neighborhood_radius_ca :: int

text \<open>\<^verbatim>\<open>__init__\<close>\<close>

definition new_TrafficAdaptiveCA :: "nat \<Rightarrow> TrafficAdaptiveCA" where
  "new_TrafficAdaptiveCA n =
     \<lparr>size_ca = n, state_ca = replicate n 0, rule_ca = 30, neighborhood_radius_ca = 1\<rparr>"

text \<open>The inner loop of \<^verbatim>\<open>init_state\<close>: the bits of one byte, most significant first.\<close>

definition byte_bits :: "byte \<Rightarrow> int list" where
  "byte_bits b = map (\<lambda>i. drop_bit (7 - i) (uint b) AND 1) [0..<8]"

definition bytes_to_bits :: "byte list \<Rightarrow> int list" where
  "bytes_to_bits data = concat (map byte_bits data)"

definition init_state ::
  "TrafficAdaptiveCA \<Rightarrow> byte list \<Rightarrow> real \<Rightarrow> py_error + TrafficAdaptiveCA" where
  "init_state ca data traffic_density =
     (let bits = bytes_to_bits data
      in if length bits < size_ca ca then
           (let density_seed = py_int (fmul traffic_density 255)
            in case bytes_of_ints [density_seed] of
                 Inl e \<Rightarrow> Inl e
               | Inr seed_byte \<Rightarrow>
                   (let pad_bits = bytes_to_bits (sha256 (data @ seed_byte));
                        needed = size_ca ca - length bits
                    in if length pad_bits = 0 then Inl ZeroDivisionError
                       else
                         (let bits' =
                                bits @ take needed
                                  (concat (replicate (needed div length pad_bits + 1) pad_bits))
                          in Inr (ca\<lparr>state_ca := take (size_ca ca) bits'\<rparr>))))
         else Inr (ca\<lparr>state_ca := take (size_ca ca) bits\<rparr>))"

definition select_traffic_rule :: "real \<Rightarrow> string \<Rightarrow> int" where
  "select_traffic_rule density signal_state =
     (if signal_state = ''EMERGENCY'' then 184
      else if density < lit_0_3 then
        (if signal_state = ''GREEN'' then 30 else 90)
      else if density < lit_0_7 then
        (if signal_state = ''YELLOW'' then 110 else 90)
      else
        (if signal_state = ''RED'' then 110 else 184))"

definition adapt_neighborhood :: "string \<Rightarrow> int" where
  "adapt_neighborhood signal_state =
     (if signal_state = ''GREEN'' then 1
      else if signal_state = ''YELLOW'' then 2
      else if signal_state = ''RED'' then 3
      else if signal_state = ''EMERGENCY'' then 5
      else 1)"

text \<open>\<^verbatim>\<open>evolve\<close>, lines 167-169: the index of the neighbour at \<open>offset\<close> from cell
  \<open>i\<close>, and the read \<^verbatim>\<open>self.state[idx]\<close>.\<close>

definition neighbor_index :: "TrafficAdaptiveCA \<Rightarrow> nat \<Rightarrow> int \<Rightarrow> py_error + int" where
  "neighbor_index ca i offset = py_mod (int i + offset) (int (size_ca ca))"

definition neighbor :: "TrafficAdaptiveCA \<Rightarrow> nat \<Rightarrow> int \<Rightarrow> py_error + int" where
  "neighbor ca i offset =
     (case neighbor_index ca i offset of
        Inl e \<Rightarrow> Inl e
      | Inr idx \<Rightarrow> getitem (state_ca ca) idx)"

definition neighborhood_bits :: "TrafficAdaptiveCA \<Rightarrow> int \<Rightarrow> nat \<Rightarrow> py_error + int list" where
  "neighborhood_bits ca radius i = for_append (neighbor ca i) [- radius..radius]"

text \<open>Lines 172-174.\<close>

definition neighborhood_value :: "int list \<Rightarrow> int" where
  "neighborhood_value nbits = foldl (\<lambda>v bit. push_bit 1 v OR bit) 0 nbits"

text \<open>The body of the loop over \<open>i\<close>: the value stored into \<^verbatim>\<open>new_state[i]\<close>.\<close>

definition new_cell :: "TrafficAdaptiveCA \<Rightarrow> int \<Rightarrow> int \<Rightarrow> nat \<Rightarrow> py_error + int" where
  "new_cell ca rule radius i =
     (case neighborhood_bits ca radius i of
        Inl e \<Rightarrow> Inl e
      | Inr nbits \<Rightarrow>
          (let nv = neighborhood_value nbits
           in if radius = 1 then
                (case py_rshift rule nv of Inl e \<Rightarrow> Inl e | Inr r \<Rightarrow> Inr (r AND 1))
              else
                (let extended_rule = rule XOR (nv mod 256);
                     bit_position = nv mod 8
                 in case py_rshift extended_rule bit_position of
                      Inl e \<Rightarrow> Inl e
                    | Inr r \<Rightarrow> Inr (r AND 1))))"

text \<open>The loop \<^verbatim>\<open>for i in range(self.size)\<close>: it reads \<^verbatim>\<open>self.state\<close> (the record
  \<open>ca\<close>, never changed by the loop) and writes the separate list \<^verbatim>\<open>new_state\<close>;
  a store outside the list raises IndexError.\<close>

fun evolve_loop ::
  "TrafficAdaptiveCA \<Rightarrow> int \<Rightarrow> int \<Rightarrow> nat list \<Rightarrow> int list \<Rightarrow> py_error + int list" where
  "evolve_loop ca rule radius [] new_state = Inr new_state"
| "evolve_loop ca rule radius (i # is) new_state =
     (case new_cell ca rule radius i of
        Inl e \<Rightarrow> Inl e
      | Inr b \<Rightarrow>
          if i < length new_state then evolve_loop ca rule radius is (new_state[i := b])
          else Inl IndexError)"

definition evolve :: "TrafficAdaptiveCA \<Rightarrow> int \<Rightarrow> int \<Rightarrow> py_error + TrafficAdaptiveCA" where
  "evolve ca rule radius =
     (case evolve_loop ca rule radius [0..<size_ca ca] (replicate (size_ca ca) 0) of
        Inl e \<Rightarrow> Inl e
      | Inr new_state \<Rightarrow> Inr (ca\<lparr>state_ca := new_state\<rparr>))"

definition calculate_evolution_steps :: "real \<Rightarrow> int \<Rightarrow> int" where
  "calculate_evolution_steps density urgency =
     (let base_steps = 64;
          density_factor = py_int (density * 64);
          urgency_factor = urgency * 10;
          total_steps = base_steps + density_factor + urgency_factor
      in min total_steps 256)"

text \<open>\<^verbatim>\<open>get_hash\<close>: the inner loop over \<open>j\<close>, then the store into the bytearray.\<close>

definition byte_val :: "int list \<Rightarrow> nat \<Rightarrow> int" where
  "byte_val st i =
     foldl (\<lambda>v j. if i * 8 + j < length st then v OR push_bit (7 - j) (st ! (i * 8 + j)) else v)
       0 [0..<8]"

definition get_hash :: "TrafficAdaptiveCA \<Rightarrow> int \<Rightarrow> py_error + byte list" where
  "get_hash ca steps = bytes_of_ints (map (byte_val (state_ca ca)) [0..<32])"

section \<open>The module functions\<close>

text \<open>\<^verbatim>\<open>for _ in range(steps): ca.evolve(rule, radius)\<close>\<close>

fun evolve_times ::
  "nat \<Rightarrow> int \<Rightarrow> int \<Rightarrow> TrafficAdaptiveCA \<Rightarrow> py_error + TrafficAdaptiveCA" where
  "evolve_times 0 rule radius ca = Inr ca"
| "evolve_times (Suc n) rule radius ca =
     (case evolve ca rule radius of
        Inl e \<Rightarrow> Inl e
      | Inr ca' \<Rightarrow> evolve_times n rule radius ca')"

definition traffic_adaptive_hash ::
  "byte list \<Rightarrow> real \<Rightarrow> string \<Rightarrow> int \<Rightarrow> py_error + string" where
  "traffic_adaptive_hash data traffic_density signal_state urgency =
     (case init_state (new_TrafficAdaptiveCA 256) data traffic_density of
        Inl e \<Rightarrow> Inl e
      | Inr ca \<Rightarrow>
          (let rule = select_traffic_rule traffic_density signal_state;
               radius = adapt_neighborhood signal_state;
               steps = calculate_evolution_steps traffic_density urgency
           in case evolve_times (nat steps) rule radius ca of
                Inl e \<Rightarrow> Inl e
              | Inr ca' \<Rightarrow>
                  (case get_hash ca' steps of
                     Inl e \<Rightarrow> Inl e
                   | Inr hash_bytes \<Rightarrow> Inr (hex hash_bytes))))"

text \<open>\<^verbatim>\<open>intersection_hash\<close>, lines 344-350: the overall signal state from the values
  of the \<^verbatim>\<open>signal_states\<close> dictionary.\<close>

definition overall_state :: "(string \<times> string) list \<Rightarrow> string" where
  "overall_state signal_states =
     (if ''RED'' \<in> set (map snd signal_states) then ''RED''
      else if ''YELLOW'' \<in> set (map snd signal_states) then ''YELLOW''
      else ''GREEN'')"

text \<open>The dictionaries are association lists in insertion order. The f-string of line 353
  formats dictionaries and a float with the interpreter's \<^verbatim>\<open>str\<close>; its UTF-8 encoding
  is the parameter \<open>fmt\<close>.\<close>

definition intersection_hash ::
  "(string \<Rightarrow> int \<Rightarrow> (string \<times> string) list \<Rightarrow> (string \<times> int) list \<Rightarrow> real \<Rightarrow> byte list) \<Rightarrow>
   string \<Rightarrow> int \<Rightarrow> (string \<times> string) list \<Rightarrow> (string \<times> int) list \<Rightarrow> real \<Rightarrow>
   py_error + string" where
  "intersection_hash fmt intersection_id timestamp signal_states vehicle_counts weather_factor =
     (let total_vehicles = sum_list (map snd vehicle_counts);
          avg_density = min (fdiv (float_of_int total_vehicles) 40) 1;
          adjusted_density = min (fmul avg_density weather_factor) 1;
          input_data = fmt intersection_id timestamp signal_states vehicle_counts weather_factor;
          urgency = min (py_int (int_truediv total_vehicles 4)) 10
      in traffic_adaptive_hash input_data adjusted_density (overall_state signal_states) urgency)"

section \<open>Calls on an explicit object store\<close>








section \<open>Definitions following the specification\<close>

text \<open>A cell value of the BitVector (spec 3): 0 or 1.\<close>

definition is_bit :: "int \<Rightarrow> bool" where
  "is_bit b \<longleftrightarrow> b = 0 \<or> b = 1"

text \<open>The BitVector of spec 3: exactly 256 cells, each 0 or 1.\<close>

definition bit_vector :: "int list \<Rightarrow> bool" where
  "bit_vector st \<longleftrightarrow> length st = 256 \<and> list_all is_bit st"

text \<open>Spec 4.2: the ordered decision table, as pairs of a guard and a rule; the first
  row whose guard holds wins.\<close>

definition rule_table :: "((real \<Rightarrow> string \<Rightarrow> bool) \<times> int) list" where
  "rule_table =
     [(\<lambda>d s. s = ''EMERGENCY'', 184),
      (\<lambda>d s. d < lit_0_3 \<and> s = ''GREEN'', 30),
      (\<lambda>d s. d < lit_0_3, 90),
      (\<lambda>d s. lit_0_3 \<le> d \<and> d < lit_0_7 \<and> s = ''YELLOW'', 110),
      (\<lambda>d s. lit_0_3 \<le> d \<and> d < lit_0_7, 90),
      (\<lambda>d s. lit_0_7 \<le> d \<and> s = ''RED'', 110),
      (\<lambda>d s. lit_0_7 \<le> d, 184)]"

fun first_match :: "((real \<Rightarrow> string \<Rightarrow> bool) \<times> int) list \<Rightarrow> real \<Rightarrow> string \<Rightarrow> int option" where
  "first_match [] d s = None"
| "first_match ((guard, r) # rows) d s = (if guard d s then Some r else first_match rows d s)"

text \<open>Spec 4.5: the window of \<open>2 * radius + 1\<close> bits at offsets \<open>-radius..radius\<close> around
  cell \<open>i\<close>, indices modulo 256; its value as an unsigned integer whose most significant
  bit is the first bit of the window; the new bit of the cell.\<close>

definition window :: "int list \<Rightarrow> int \<Rightarrow> nat \<Rightarrow> int list" where
  "window st radius i = map (\<lambda>offset. st ! nat ((int i + offset) mod 256)) [- radius..radius]"

definition bits_value :: "int list \<Rightarrow> int" where
  "bits_value bs = (\<Sum>k\<leftarrow>[0..<length bs]. bs ! k * 2 ^ (length bs - 1 - k))"

definition window_value :: "int list \<Rightarrow> int \<Rightarrow> nat \<Rightarrow> int" where
  "window_value st radius i = bits_value (window st radius i)"

definition next_bit :: "int list \<Rightarrow> int \<Rightarrow> int \<Rightarrow> nat \<Rightarrow> int" where
  "next_bit st rule radius i =
     (let w = window_value st radius i
      in if radius = 1 then of_bool (bit rule (nat w))
         else of_bool (bit (rule XOR (w mod 256)) (nat (w mod 8))))"

section \<open>SHA-256: the digest has 32 bytes\<close>

lemma length_sha256_round: "length (sha256_round kw hs) = 8"
  by (simp add: sha256_round_def Let_def)

lemma length_fold_round: "length hs = 8 \<Longrightarrow> length (fold sha256_round kws hs) = 8"
  by (induction kws arbitrary: hs) (simp_all add: length_sha256_round)

lemma length_compress: "length hs = 8 \<Longrightarrow> length (compress blk hs) = 8"
  by (simp add: compress_def length_fold_round)

lemma length_fold_compress: "length hs = 8 \<Longrightarrow> length (fold compress bs hs) = 8"
  by (induction bs arbitrary: hs) (simp_all add: length_compress)

lemma length_concat_const:
  "(\<And>x. x \<in> set xs \<Longrightarrow> length (f x) = n) \<Longrightarrow> length (concat (map f xs)) = n * length xs"
  by (induction xs) simp_all

lemma length_sha256: "length (sha256 m) = 32"
proof -
  have "length (fold compress (blocks (pad_message m)) sha256_H0) = 8"
    by (simp add: length_fold_compress sha256_H0_def)
  moreover have "\<And>w. length (bytes_of_word w) = 4"
    by (simp add: bytes_of_word_def)
  ultimately show ?thesis
    unfolding sha256_def by (simp add: length_concat_const)
qed

text \<open>Two test vectors of the standard: the digests of the empty message and of
  \<^verbatim>\<open>abc\<close>.\<close>

lemma sha256_empty:
  "map unat (sha256 []) =
     [227, 176, 196, 66, 152, 252, 28, 20, 154, 251, 244, 200, 153, 111, 185, 36,
      39, 174, 65, 228, 100, 155, 147, 76, 164, 149, 153, 27, 120, 82, 184, 85]"
  by code_simp

lemma sha256_abc:
  "map unat (sha256 [0x61, 0x62, 0x63]) =
     [186, 120, 22, 191, 143, 1, 207, 234, 65, 65, 64, 222, 93, 174, 34, 35,
      176, 3, 97, 163, 150, 23, 122, 156, 180, 16, 255, 97, 242, 0, 21, 173]"
  by code_simp

section \<open>Rounding to a double\<close>

lemma round_half_even_bounds: "\<lfloor>y\<rfloor> \<le> round_half_even y \<and> round_half_even y \<le> \<lceil>y\<rceil>"
proof -
  have "\<lceil>y\<rceil> = \<lfloor>y\<rfloor> + 1" if "0 < y - of_int \<lfloor>y\<rfloor>"
    using that by (simp add: ceiling_altdef)
  then show ?thesis
    unfolding round_half_even_def Let_def by (auto simp: ceiling_altdef)
qed

lemma round_half_even_of_int: "round_half_even (of_int n) = n"
  by (simp add: round_half_even_def)

lemma floor_log2_eq:
  assumes "2 ^ n \<le> x" and "x < 2 ^ Suc n"
  shows "\<lfloor>log 2 x\<rfloor> = int n"
proof -
  have pos: "0 < x"
    using assms(1) by (rule less_le_trans [OF zero_less_power, rotated]) simp
  have "real n \<le> log 2 x"
    using assms(1) pos by (simp add: le_log_iff powr_realpow)
  moreover have "log 2 x < real n + 1"
    using assms(2) pos by (simp add: log_less_iff powr_realpow powr_add)
  ultimately show ?thesis
    by (simp add: floor_eq_iff)
qed

lemma float_exponent_le:
  assumes "0 < x" and "x < 2 ^ n"
  shows "float_exponent x < int n"
proof -
  have "log 2 x < real n"
    using assms by (simp add: log_less_iff powr_realpow)
  then have "\<lfloor>log 2 x\<rfloor> < int n"
    by (simp add: floor_less_iff)
  then show ?thesis
    using assms(1) by (simp add: float_exponent_def)
qed

lemma round_double_range:
  assumes "0 \<le> x" and "x \<le> 255"
  shows "0 \<le> round_double x \<and> round_double x \<le> 255"
proof (cases "x = 0")
  case True
  then show ?thesis by (simp add: round_double_def)
next
  case False
  with assms have pos: "0 < x" by simp
  define e where "e = float_exponent x"
  define k where "k = nat (52 - e)"
  define r where "r = round_half_even (x * 2 ^ k)"
  have "e < 8"
    unfolding e_def using float_exponent_le [OF pos, of 8] assms(2) by simp
  then have k: "52 - e = int k"
    by (simp add: k_def)
  have ulp: "2 powr real_of_int (e - 52) = 1 / 2 ^ k"
  proof -
    have "real_of_int (e - 52) = - real k"
      using k by linarith
    then show ?thesis
      by (simp add: powr_minus powr_realpow inverse_eq_divide)
  qed
  have "round_double x = real_of_int (round_half_even (x / (1 / 2 ^ k))) * (1 / 2 ^ k)"
    unfolding round_double_def Let_def e_def [symmetric] ulp using False by (simp only: if_False)
  then have rd: "round_double x = real_of_int r / 2 ^ k"
    by (simp add: r_def)
  have "0 \<le> x * 2 ^ k"
    using assms(1) by simp
  then have "0 \<le> \<lfloor>x * 2 ^ k\<rfloor>"
    by simp
  then have r0: "0 \<le> r"
    unfolding r_def using round_half_even_bounds [of "x * 2 ^ k"] by linarith
  have "x * 2 ^ k \<le> real_of_int (255 * 2 ^ k)"
    using assms(2) by simp
  then have "\<lceil>x * 2 ^ k\<rceil> \<le> 255 * 2 ^ k"
    by (simp only: ceiling_le_iff)
  then have r1: "r \<le> 255 * 2 ^ k"
    unfolding r_def using round_half_even_bounds [of "x * 2 ^ k"] by linarith
  then have "real_of_int r \<le> 255 * 2 ^ k"
    by (metis of_int_le_iff of_int_mult of_int_numeral of_int_power)
  then have "real_of_int r / 2 ^ k \<le> 255"
    by (simp add: divide_le_eq)
  moreover have "0 \<le> real_of_int r / 2 ^ k"
    using r0 by simp
  ultimately show ?thesis
    unfolding rd by simp
qed

lemma py_int_unit:
  assumes "0 \<le> d" and "d \<le> 1"
  shows "0 \<le> py_int (fmul d 255) \<and> py_int (fmul d 255) < 256"
proof -
  have "0 \<le> d * 255" "d * 255 \<le> 255"
    using assms by simp_all
  from round_double_range [OF this]
  have "0 \<le> fmul d 255" "fmul d 255 \<le> 255"
    by (simp_all add: fmul_def)
  then show ?thesis
    by (simp add: py_int_def floor_less_iff)
qed

lemma round_double_dyadic:
  assumes "2 ^ n \<le> \<bar>x\<bar>" and "\<bar>x\<bar> < 2 ^ Suc n" and "n \<le> 52"
  shows "round_double x = real_of_int (round_half_even (x * 2 ^ (52 - n))) / 2 ^ (52 - n)"
proof -
  have "(0::real) < 2 ^ n"
    by simp
  also note assms(1)
  finally have nz: "x \<noteq> 0"
    by simp
  have e: "float_exponent x = int n"
    using floor_log2_eq [OF assms(1,2)] by (simp add: float_exponent_def)
  define k where "k = 52 - n"
  have ulp: "2 powr real_of_int (int n - 52) = 1 / 2 ^ k"
  proof -
    have "real_of_int (int n - 52) = - real k"
      using assms(3) by (simp add: k_def)
    then show ?thesis
      by (simp add: powr_minus powr_realpow inverse_eq_divide)
  qed
  have "round_double x = real_of_int (round_half_even (x / (1 / 2 ^ k))) * (1 / 2 ^ k)"
    unfolding round_double_def Let_def e ulp using nz by (simp only: if_False)
  then show ?thesis
    unfolding k_def by simp
qed

lemma round_double_fraction:
  assumes "1 / 2 ^ m \<le> \<bar>x\<bar>" and "\<bar>x\<bar> < 2 / 2 ^ m" and "m \<le> 1022"
  shows "round_double x = real_of_int (round_half_even (x * 2 ^ (52 + m))) / 2 ^ (52 + m)"
proof -
  have "(0::real) < 1 / 2 ^ m"
    by simp
  also note assms(1)
  finally have pos: "0 < \<bar>x\<bar>" .
  then have nz: "x \<noteq> 0"
    by simp
  have "- real m \<le> log 2 \<bar>x\<bar>"
    using assms(1) pos by (simp add: le_log_iff powr_minus powr_realpow inverse_eq_divide)
  moreover have "log 2 \<bar>x\<bar> < - real m + 1"
  proof -
    have "2 powr (1 - real m) = 2 / 2 ^ m"
      by (simp add: powr_diff powr_realpow)
    with assms(2) have "\<bar>x\<bar> < 2 powr (1 - real m)"
      by simp
    then have "log 2 \<bar>x\<bar> < 1 - real m"
      using pos by (simp only: log_less_iff [of 2, simplified] )
    then show ?thesis
      by simp
  qed
  ultimately have "\<lfloor>log 2 \<bar>x\<bar>\<rfloor> = - int m"
    by (simp add: floor_eq_iff)
  then have e: "float_exponent x = - int m"
    using assms(3) by (simp add: float_exponent_def)
  define k where "k = 52 + m"
  have ulp: "2 powr real_of_int (- int m - 52) = 1 / 2 ^ k"
  proof -
    have "real_of_int (- int m - 52) = - real k"
      by (simp add: k_def)
    then show ?thesis
      by (simp add: powr_minus powr_realpow inverse_eq_divide)
  qed
  have "round_double x = real_of_int (round_half_even (x / (1 / 2 ^ k))) * (1 / 2 ^ k)"
    unfolding round_double_def Let_def e ulp using nz by (simp only: if_False)
  then show ?thesis
    unfolding k_def by simp
qed

lemma fmul_2_255: "fmul 2 255 = 510"
proof -
  have "round_double 510 = real_of_int (round_half_even (510 * 2 ^ (52 - 8))) / 2 ^ (52 - 8)"
    by (rule round_double_dyadic) simp_all
  also have "(510::real) * 2 ^ (52 - 8) = of_int (510 * 2 ^ 44)"
    by simp
  also have "real_of_int (round_half_even (of_int (510 * 2 ^ 44))) / 2 ^ (52 - 8) = 510"
    by (simp only: round_half_even_of_int) simp
  finally show ?thesis
    by (simp add: fmul_def)
qed

text \<open>The seed byte at the double 0.6: the exact product lies just below 153 and rounds
  to 153.\<close>

lemma seed_at_0_6: "py_int (fmul (5404319552844595 / 9007199254740992) 255) = 153"
proof -
  let ?x = "(5404319552844595 / 9007199254740992 :: real) * 255"
  have "round_double ?x = real_of_int (round_half_even (?x * 2 ^ (52 - 7))) / 2 ^ (52 - 7)"
    by (rule round_double_dyadic) simp_all
  also have "round_half_even (?x * 2 ^ (52 - 7)) = 153 * 2 ^ 45"
    by (simp add: round_half_even_def Let_def)
  finally have "fmul (5404319552844595 / 9007199254740992) 255 = 153"
    by (simp add: fmul_def)
  then show ?thesis
    by (simp add: py_int_def)
qed

section \<open>The seeder produces bits\<close>

lemma and_one_is_bit: "is_bit (k AND 1)"
  by (simp add: is_bit_def and_one_eq) presburger

lemma length_byte_bits: "length (byte_bits b) = 8"
  by (simp add: byte_bits_def)

lemma byte_bits_are_bits: "list_all is_bit (byte_bits b)"
  by (simp add: byte_bits_def list_all_iff and_one_is_bit)

lemma length_bytes_to_bits: "length (bytes_to_bits data) = 8 * length data"
  by (simp add: bytes_to_bits_def length_concat_const length_byte_bits)

lemma bytes_to_bits_are_bits: "list_all is_bit (bytes_to_bits data)"
  using byte_bits_are_bits by (induction data) (simp_all add: bytes_to_bits_def)

lemma list_all_take: "list_all P xs \<Longrightarrow> list_all P (take n xs)"
  by (auto simp: list_all_iff dest: in_set_takeD)

lemma list_all_concat_replicate: "list_all P xs \<Longrightarrow> list_all P (concat (replicate n xs))"
  by (induction n) simp_all

lemma length_concat_replicate: "length (concat (replicate n xs)) = n * length xs"
  by (induction n) simp_all

lemma bytes_of_ints_single:
  "bytes_of_ints [x] = (if 0 \<le> x \<and> x < 256 then Inr [word_of_int x] else Inl ValueError)"
  by (simp add: bytes_of_ints_def)

lemma init_state_long:
  assumes "size_ca ca \<le> 8 * length data"
  shows "init_state ca data d = Inr (ca\<lparr>state_ca := take (size_ca ca) (bytes_to_bits data)\<rparr>)"
  using assms by (simp add: init_state_def Let_def length_bytes_to_bits)

lemma init_state_short:
  assumes "8 * length data < size_ca ca" and "0 \<le> py_int (fmul d 255)" and "py_int (fmul d 255) < 256"
  shows "\<exists>ca'. init_state ca data d = Inr ca' \<and> length (state_ca ca') = size_ca ca
           \<and> list_all is_bit (state_ca ca') \<and> size_ca ca' = size_ca ca"
proof -
  let ?bits = "bytes_to_bits data"
  let ?pad = "bytes_to_bits (sha256 (data @ [word_of_int (py_int (fmul d 255))]))"
  let ?needed = "size_ca ca - length ?bits"
  let ?rep = "concat (replicate (?needed div length ?pad + 1) ?pad)"
  have lp: "length ?pad = 256"
    by (simp add: length_bytes_to_bits length_sha256)
  have "?needed < (?needed div 256 + 1) * 256"
    using dividend_less_times_div [of 256 ?needed] by simp
  then have enough: "?needed \<le> length ?rep"
    by (simp add: length_concat_replicate lp del: replicate.simps)
  have ne: "?pad \<noteq> []"
    using lp by auto
  define st where "st = take (size_ca ca) (?bits @ take ?needed ?rep)"
  have eq: "init_state ca data d = Inr (ca\<lparr>state_ca := st\<rparr>)"
    unfolding st_def using assms lp ne
    by (simp add: init_state_def Let_def bytes_of_ints_single length_bytes_to_bits)
  have len: "length st = size_ca ca"
    unfolding st_def using enough assms(1) by (simp add: length_bytes_to_bits)
  have bits: "list_all is_bit st"
    unfolding st_def
    by (intro list_all_take)
      (simp add: bytes_to_bits_are_bits list_all_take list_all_concat_replicate
         del: replicate.simps)
  show ?thesis using eq len bits by simp
qed

section \<open>One generation\<close>

lemma is_bit_of_bool: "is_bit (of_bool p)"
  by (simp add: is_bit_def)

lemma shift_or_bit: "is_bit b \<Longrightarrow> push_bit 1 (v::int) OR b = 2 * v + b"
  by (auto simp: is_bit_def or_one_eq)

lemma bits_value_Nil: "bits_value [] = 0"
  by (simp add: bits_value_def)

lemma bits_value_snoc:
  "bits_value (bs @ [b]) = 2 * bits_value bs + b"
proof -
  have "(\<Sum>k\<leftarrow>[0..<length bs]. (bs @ [b]) ! k * 2 ^ (length bs - k))
        = (\<Sum>k\<leftarrow>[0..<length bs]. 2 * (bs ! k * 2 ^ (length bs - 1 - k)))"
  proof (rule arg_cong [where f = sum_list], rule map_cong [OF refl])
    fix k assume "k \<in> set [0..<length bs]"
    then have k: "k < length bs" by simp
    then have "(2::int) ^ (length bs - k) = 2 * 2 ^ (length bs - 1 - k)"
      by (metis Suc_diff_Suc diff_Suc_eq_diff_pred power_Suc diff_Suc_1 Suc_diff_le less_imp_le_nat Suc_leI diff_diff_left plus_1_eq_Suc)
    with k show "(bs @ [b]) ! k * 2 ^ (length bs - k) = 2 * (bs ! k * 2 ^ (length bs - 1 - k))"
      by (simp add: nth_append)
  qed
  then show ?thesis
    by (simp add: bits_value_def sum_list_const_mult)
qed

lemma neighborhood_value_eq:
  "list_all is_bit bs \<Longrightarrow> neighborhood_value bs = bits_value bs"
proof (induction bs rule: rev_induct)
  case Nil
  show ?case by (simp add: neighborhood_value_def bits_value_def)
next
  case (snoc b bs)
  then have b: "is_bit b" and ih: "neighborhood_value bs = bits_value bs" by simp_all
  have "neighborhood_value (bs @ [b]) = push_bit 1 (neighborhood_value bs) OR b"
    unfolding neighborhood_value_def foldl_append by (simp del: push_bit_of_Suc_0 push_bit_eq_mult)
  also have "\<dots> = 2 * bits_value bs + b"
    unfolding ih by (rule shift_or_bit [OF b])
  finally show ?case by (simp add: bits_value_snoc)
qed

lemma bits_value_nonneg: "list_all is_bit bs \<Longrightarrow> 0 \<le> bits_value bs"
  by (induction bs rule: rev_induct) (auto simp: bits_value_snoc bits_value_Nil is_bit_def)


lemma for_append_total:
  "(\<And>x. x \<in> set xs \<Longrightarrow> f x = Inr (g x)) \<Longrightarrow> for_append f xs = Inr (map g xs)"
  by (induction xs) simp_all

lemma neighbor_ring:
  assumes "size_ca ca = 256" and "length (state_ca ca) = 256"
  shows "neighbor ca i offset = Inr (state_ca ca ! nat ((int i + offset) mod 256))"
proof -
  have "0 \<le> (int i + offset) mod 256" "(int i + offset) mod 256 < 256"
    by simp_all
  then show ?thesis
    using assms by (simp add: neighbor_def neighbor_index_def py_mod_def getitem_def)
qed

lemma neighborhood_bits_window:
  assumes "size_ca ca = 256" and "length (state_ca ca) = 256"
  shows "neighborhood_bits ca radius i = Inr (window (state_ca ca) radius i)"
  unfolding neighborhood_bits_def window_def
  by (rule for_append_total) (rule neighbor_ring [OF assms])

lemma window_bits:
  assumes "length st = 256" and "list_all is_bit st"
  shows "list_all is_bit (window st radius i)"
proof -
  have "is_bit (st ! nat (k mod 256))" for k :: int
  proof -
    have "nat (k mod 256) < length st"
      using assms(1) by simp
    then show ?thesis
      using assms(2) by (simp add: list_all_length)
  qed
  then show ?thesis
    by (simp add: window_def list_all_iff)
qed

lemma rshift_and_one: "drop_bit n (k::int) AND 1 = of_bool (bit k n)"
  by (simp add: and_one_eq bit_iff_odd_drop_bit mod_2_eq_odd)

lemma new_cell_next_bit:
  assumes "size_ca ca = 256" and "length (state_ca ca) = 256" and "list_all is_bit (state_ca ca)"
  shows "new_cell ca rule radius i = Inr (next_bit (state_ca ca) rule radius i)"
proof -
  let ?w = "window (state_ca ca) radius i"
  have bits: "list_all is_bit ?w"
    using assms(2,3) by (rule window_bits)
  have nv: "neighborhood_value ?w = window_value (state_ca ca) radius i"
    by (simp add: neighborhood_value_eq [OF bits] window_value_def)
  define w where "w = window_value (state_ca ca) radius i"
  have nonneg: "0 \<le> w"
    unfolding w_def window_value_def using bits by (rule bits_value_nonneg)
  have nc: "new_cell ca rule radius i =
      (if radius = 1 then
         (case py_rshift rule w of Inl e \<Rightarrow> Inl e | Inr r \<Rightarrow> Inr (r AND 1))
       else
         (case py_rshift (rule XOR (w mod 256)) (w mod 8) of
            Inl e \<Rightarrow> Inl e | Inr r \<Rightarrow> Inr (r AND 1)))"
    by (simp add: new_cell_def neighborhood_bits_window [OF assms(1,2)] nv w_def Let_def)
  have r1: "py_rshift rule w = Inr (drop_bit (nat w) rule)"
    using nonneg by (simp add: py_rshift_def)
  have r2: "py_rshift (rule XOR (w mod 256)) (w mod 8)
              = Inr (drop_bit (nat (w mod 8)) (rule XOR (w mod 256)))"
    by (simp add: py_rshift_def)
  show ?thesis
  proof (cases "radius = 1")
    case True
    have "new_cell ca rule radius i = Inr (drop_bit (nat w) rule AND 1)"
      unfolding nc r1 by (simp add: True)
    also have "\<dots> = Inr (of_bool (bit rule (nat w)))"
      by (simp only: rshift_and_one)
    also have "\<dots> = Inr (next_bit (state_ca ca) rule radius i)"
      using True by (simp add: next_bit_def w_def)
    finally show ?thesis .
  next
    case False
    have "new_cell ca rule radius i
                 = Inr (drop_bit (nat (w mod 8)) (rule XOR (w mod 256)) AND 1)"
      unfolding nc r2 by (simp add: False)
    also have "\<dots> = Inr (of_bool (bit (rule XOR (w mod 256)) (nat (w mod 8))))"
      by (simp only: rshift_and_one)
    also have "\<dots> = Inr (next_bit (state_ca ca) rule radius i)"
      using False by (simp add: next_bit_def w_def)
    finally show ?thesis .
  qed
qed

lemma fold_update_upt:
  "m \<le> length ns \<Longrightarrow>
   fold (\<lambda>i xs. xs[i := f i]) [0..<m] ns = map f [0..<m] @ drop m ns"
proof (induction m)
  case 0
  show ?case by simp
next
  case (Suc m)
  then have m: "m < length ns" by simp
  have "(map f [0..<m] @ drop m ns)[m := f m] = map f [0..<m] @ (drop m ns)[0 := f m]"
    by (simp add: list_update_append)
  also have "(drop m ns)[0 := f m] = f m # drop (Suc m) ns"
    using m by (simp add: Cons_nth_drop_Suc [symmetric])
  finally show ?case
    using Suc by simp
qed

lemma evolve_loop_fold:
  assumes "\<And>i. i \<in> set is \<Longrightarrow> new_cell ca rule radius i = Inr (f i)"
    and "\<And>i. i \<in> set is \<Longrightarrow> i < length ns"
  shows "evolve_loop ca rule radius is ns = Inr (fold (\<lambda>i xs. xs[i := f i]) is ns)"
  using assms by (induction "is" arbitrary: ns) simp_all

lemma evolve_next_bit:
  assumes "size_ca ca = 256" and "length (state_ca ca) = 256" and "list_all is_bit (state_ca ca)"
  shows "evolve ca rule radius =
           Inr (ca\<lparr>state_ca := map (next_bit (state_ca ca) rule radius) [0..<256]\<rparr>)"
proof -
  have "evolve_loop ca rule radius [0..<256] (replicate 256 0)
          = Inr (fold (\<lambda>i xs. xs[i := next_bit (state_ca ca) rule radius i]) [0..<256]
                  (replicate 256 0))"
    by (rule evolve_loop_fold) (simp_all add: new_cell_next_bit [OF assms])
  also have "fold (\<lambda>i xs. xs[i := next_bit (state_ca ca) rule radius i]) [0..<256]
                  (replicate 256 0) = map (next_bit (state_ca ca) rule radius) [0..<256]"
    using fold_update_upt [of 256 "replicate 256 0" "next_bit (state_ca ca) rule radius"]
    by simp
  finally show ?thesis
    using assms(1) by (simp add: evolve_def)
qed

section \<open>Repeated generations and the digest\<close>

lemma evolve_bit_vector:
  assumes "size_ca ca = 256" and "bit_vector (state_ca ca)"
  shows "\<exists>ca'. evolve ca rule radius = Inr ca' \<and> size_ca ca' = 256 \<and> bit_vector (state_ca ca')
           \<and> state_ca ca' = map (next_bit (state_ca ca) rule radius) [0..<256]"
proof -
  have "list_all is_bit (map (next_bit (state_ca ca) rule radius) [0..<256])"
    by (simp add: list_all_iff next_bit_def Let_def is_bit_of_bool del: upt.simps)
  then show ?thesis
    using assms by (simp add: bit_vector_def evolve_next_bit del: upt.simps)
qed

lemma evolve_times_bit_vector:
  assumes "size_ca ca = 256" and "bit_vector (state_ca ca)"
  shows "\<exists>ca'. evolve_times n rule radius ca = Inr ca' \<and> size_ca ca' = 256
           \<and> bit_vector (state_ca ca')"
  using assms
proof (induction n arbitrary: ca)
  case 0
  then show ?case by simp
next
  case (Suc n)
  from evolve_bit_vector [OF Suc.prems, of rule radius]
  obtain c where c: "evolve ca rule radius = Inr c" "size_ca c = 256" "bit_vector (state_ca c)"
    by blast
  from Suc.IH [OF c(2,3)] c(1) show ?case by simp
qed

lemma evolve_times_Suc_last:
  "evolve_times (Suc n) rule radius ca =
     (case evolve_times n rule radius ca of Inl e \<Rightarrow> Inl e | Inr c \<Rightarrow> evolve c rule radius)"
proof (induction n arbitrary: ca)
  case 0
  show ?case by (simp split: sum.splits)
next
  case (Suc n)
  show ?case
  proof (cases "evolve ca rule radius")
    case (Inl e)
    then show ?thesis by simp
  next
    case (Inr c)
    have "evolve_times (Suc (Suc n)) rule radius ca = evolve_times (Suc n) rule radius c"
      using Inr by simp
    also have "\<dots> = (case evolve_times n rule radius c of
                         Inl e \<Rightarrow> Inl e | Inr c' \<Rightarrow> evolve c' rule radius)"
      by (rule Suc.IH)
    also have "evolve_times n rule radius c = evolve_times (Suc n) rule radius ca"
      using Inr by simp
    finally show ?thesis .
  qed
qed

lemma byte_val_step_bound:
  assumes "0 \<le> v" and "v < 256" and "list_all is_bit st"
  shows "0 \<le> foldl (\<lambda>v j. if i * 8 + j < length st
                              then v OR push_bit (7 - j) (st ! (i * 8 + j)) else v) v js
         \<and> foldl (\<lambda>v j. if i * 8 + j < length st
                              then v OR push_bit (7 - j) (st ! (i * 8 + j)) else v) v js < 256"
  using assms(1,2)
proof (induction js arbitrary: v)
  case Nil
  then show ?case by simp
next
  case (Cons j js)
  show ?case
  proof (cases "i * 8 + j < length st")
    case False
    then show ?thesis using Cons by simp
  next
    case True
    then have b: "is_bit (st ! (i * 8 + j))"
      using assms(3) by (simp add: list_all_length)
    have p0: "0 \<le> push_bit (7 - j) (st ! (i * 8 + j))"
      using b by (auto simp: is_bit_def)
    have "push_bit (7 - j) (st ! (i * 8 + j)) \<le> 2 ^ (7 - j)"
      using b by (auto simp: is_bit_def push_bit_eq_mult)
    also have "(2::int) ^ (7 - j) \<le> 2 ^ 7"
      by (rule power_increasing) simp_all
    finally have p1: "push_bit (7 - j) (st ! (i * 8 + j)) < 2 ^ 8"
      by simp
    have "v OR push_bit (7 - j) (st ! (i * 8 + j)) < 2 ^ 8"
      using Cons.prems p1 by (intro OR_upper) simp_all
    moreover have "0 \<le> v OR push_bit (7 - j) (st ! (i * 8 + j))"
      using Cons.prems p0 by simp
    ultimately show ?thesis
      using True Cons.IH [of "v OR push_bit (7 - j) (st ! (i * 8 + j))"] by simp
  qed
qed

lemma byte_val_range: "list_all is_bit st \<Longrightarrow> 0 \<le> byte_val st i \<and> byte_val st i < 256"
  unfolding byte_val_def by (rule byte_val_step_bound) simp_all

lemma get_hash_bytes:
  assumes "list_all is_bit (state_ca ca)"
  shows "get_hash ca steps = Inr (map (\<lambda>i. word_of_int (byte_val (state_ca ca) i)) [0..<32])"
proof -
  have "list_all (\<lambda>x. 0 \<le> x \<and> x < 256) (map (byte_val (state_ca ca)) [0..<32])"
    using byte_val_range [OF assms] by (simp add: list_all_iff del: upt.simps)
  then show ?thesis
    by (simp add: get_hash_def bytes_of_ints_def comp_def del: upt.simps)
qed

lemma length_hex: "length (hex bs) = 2 * length bs"
  by (simp add: hex_def length_concat_const)

lemma hex_digit_lower: "n < 16 \<Longrightarrow> hex_digit n \<in> set ''0123456789abcdef''"
  unfolding hex_digit_def by (rule nth_mem) simp

lemma hex_chars: "set (hex bs) \<subseteq> set ''0123456789abcdef''"
proof -
  define H where "H = set ''0123456789abcdef''"
  have digit: "hex_digit n \<in> H" if "n < 16" for n
    unfolding H_def using that by (rule hex_digit_lower)
  have pair: "hex_digit (unat b div 16) \<in> H \<and> hex_digit (unat b mod 16) \<in> H" for b :: byte
  proof -
    have "unat b < 2 ^ LENGTH(8)" by (rule unsigned_less)
    then have "unat b div 16 < 16" by simp
    moreover have "unat b mod 16 < 16" by simp
    ultimately show ?thesis by (simp only: digit)
  qed
  have "set (hex bs) \<subseteq> H"
    unfolding hex_def using pair by (induction bs) simp_all
  then show ?thesis unfolding H_def .
qed

lemma init_state_bit_vector:
  assumes "init_state (new_TrafficAdaptiveCA 256) data d = Inr ca"
  shows "size_ca ca = 256 \<and> bit_vector (state_ca ca)"
proof (cases "256 \<le> 8 * length data")
  case True
  then have "init_state (new_TrafficAdaptiveCA 256) data d
      = Inr ((new_TrafficAdaptiveCA 256)\<lparr>state_ca := take 256 (bytes_to_bits data)\<rparr>)"
    using init_state_long [of "new_TrafficAdaptiveCA 256" data d]
    by (simp add: new_TrafficAdaptiveCA_def)
  with assms have "ca = (new_TrafficAdaptiveCA 256)\<lparr>state_ca := take 256 (bytes_to_bits data)\<rparr>"
    by simp
  then show ?thesis
    using True
    by (simp add: bit_vector_def new_TrafficAdaptiveCA_def length_bytes_to_bits
        list_all_take bytes_to_bits_are_bits)
next
  case False
  then have short: "8 * length data < size_ca (new_TrafficAdaptiveCA 256)"
    by (simp add: new_TrafficAdaptiveCA_def)
  have "0 \<le> py_int (fmul d 255) \<and> py_int (fmul d 255) < 256"
  proof (rule ccontr)
    assume "\<not> ?thesis"
    then have "init_state (new_TrafficAdaptiveCA 256) data d = Inl ValueError"
      using short by (auto simp: init_state_def Let_def bytes_of_ints_single length_bytes_to_bits)
    with assms show False by simp
  qed
  then obtain ca' where "init_state (new_TrafficAdaptiveCA 256) data d = Inr ca'"
      "length (state_ca ca') = 256" "list_all is_bit (state_ca ca')" "size_ca ca' = 256"
    using init_state_short [OF short, of d] by (auto simp: new_TrafficAdaptiveCA_def)
  with assms show ?thesis by (simp add: bit_vector_def)
qed

lemma init_state_returns:
  assumes "256 \<le> 8 * length data \<or> (0 \<le> py_int (fmul d 255) \<and> py_int (fmul d 255) < 256)"
  shows "\<exists>ca. init_state (new_TrafficAdaptiveCA 256) data d = Inr ca"
proof (cases "256 \<le> 8 * length data")
  case True
  then show ?thesis
    using init_state_long [of "new_TrafficAdaptiveCA 256" data d]
    by (simp add: new_TrafficAdaptiveCA_def)
next
  case False
  then have "8 * length data < size_ca (new_TrafficAdaptiveCA 256)"
    by (simp add: new_TrafficAdaptiveCA_def)
  moreover from False assms have "0 \<le> py_int (fmul d 255)" "py_int (fmul d 255) < 256"
    by simp_all
  ultimately show ?thesis
    using init_state_short [of data "new_TrafficAdaptiveCA 256" d] by blast
qed

lemma hash_after_seed:
  assumes "init_state (new_TrafficAdaptiveCA 256) data d = Inr ca"
  shows "\<exists>bs. traffic_adaptive_hash data d s u = Inr (hex bs) \<and> length bs = 32"
proof -
  from init_state_bit_vector [OF assms]
  have ca: "size_ca ca = 256" "bit_vector (state_ca ca)" by simp_all
  let ?rule = "select_traffic_rule d s" and ?radius = "adapt_neighborhood s"
  let ?steps = "calculate_evolution_steps d u"
  from evolve_times_bit_vector [OF ca, of "nat ?steps" ?rule ?radius]
  obtain c where c: "evolve_times (nat ?steps) ?rule ?radius ca = Inr c"
      "bit_vector (state_ca c)"
    by blast
  then have bits: "list_all is_bit (state_ca c)"
    by (simp add: bit_vector_def)
  have "traffic_adaptive_hash data d s u
          = Inr (hex (map (\<lambda>i. word_of_int (byte_val (state_ca c) i)) [0..<32]))"
    using assms c(1) get_hash_bytes [OF bits, of ?steps]
    by (simp add: traffic_adaptive_hash_def Let_def del: upt.simps)
  then show ?thesis
    by (intro exI [of _ "map (\<lambda>i. word_of_int (byte_val (state_ca c) i)) [0..<32]"]) simp
qed

section \<open>The store does not reach the result\<close>





section \<open>The intersection wrapper on an example\<close>

text \<open>25 vehicles and the weather factor 0.3: the rounded product is the density 0.1875,
  the urgency is 6, and the hash runs 136 generations.\<close>

lemma float_of_int_25: "float_of_int 25 = 25"
proof -
  have "round_double 25 = real_of_int (round_half_even (25 * 2 ^ (52 - 4))) / 2 ^ (52 - 4)"
    by (rule round_double_dyadic) simp_all
  also have "(25::real) * 2 ^ (52 - 4) = of_int (25 * 2 ^ 48)"
    by simp
  also have "real_of_int (round_half_even (of_int (25 * 2 ^ 48))) / 2 ^ (52 - 4) = 25"
    by (simp only: round_half_even_of_int) simp
  finally show ?thesis
    by (simp add: float_of_int_def)
qed

lemma fdiv_25_40: "fdiv 25 40 = 5 / 8"
proof -
  have "round_double (5 / 8)
          = real_of_int (round_half_even (5 / 8 * 2 ^ (52 + 1))) / 2 ^ (52 + 1)"
    by (rule round_double_fraction) simp_all
  also have "(5 / 8 :: real) * 2 ^ (52 + 1) = of_int (5 * 2 ^ 50)"
    by simp
  also have "real_of_int (round_half_even (of_int (5 * 2 ^ 50))) / 2 ^ (52 + 1) = 5 / 8"
    by (simp only: round_half_even_of_int) simp
  finally show ?thesis
    by (simp add: fdiv_def)
qed

lemma fmul_five_eighths_0_3: "fmul (5 / 8) lit_0_3 = 3 / 16"
proof -
  let ?x = "5 / 8 * lit_0_3"
  have "round_double ?x = real_of_int (round_half_even (?x * 2 ^ (52 + 3))) / 2 ^ (52 + 3)"
    by (rule round_double_fraction) (simp_all add: lit_0_3_def)
  also have "round_half_even (?x * 2 ^ (52 + 3)) = 3 * 2 ^ 51"
    by (simp add: round_half_even_def lit_0_3_def Let_def)
  finally show ?thesis
    by (simp add: fmul_def)
qed

lemma int_truediv_25_4: "py_int (int_truediv 25 4) = 6"
proof -
  have "round_double (25 / 4)
          = real_of_int (round_half_even (25 / 4 * 2 ^ (52 - 2))) / 2 ^ (52 - 2)"
    by (rule round_double_dyadic) simp_all
  also have "(25 / 4 :: real) * 2 ^ (52 - 2) = of_int (25 * 2 ^ 48)"
    by simp
  also have "real_of_int (round_half_even (of_int (25 * 2 ^ 48))) / 2 ^ (52 - 2) = 25 / 4"
    by (simp only: round_half_even_of_int) simp
  finally have rd: "round_double (25 / 4) = 25 / 4" .
  have v: "int_truediv 25 4 = 25 / 4"
    unfolding int_truediv_def using rd by simp
  show ?thesis
    unfolding v by (simp add: py_int_def)
qed

lemma intersection_example:
  "intersection_hash fmt iid ts ss [(''north'', 15), (''south'', 10)] lit_0_3
     = traffic_adaptive_hash (fmt iid ts ss [(''north'', 15), (''south'', 10)] lit_0_3)
         (3 / 16) (overall_state ss) 6
   \<and> calculate_evolution_steps (3 / 16) 6 = 136"
proof -
  have "calculate_evolution_steps (3 / 16) 6 = 136"
    by (simp add: calculate_evolution_steps_def py_int_def Let_def)
  then show ?thesis
    by (simp add: intersection_hash_def Let_def float_of_int_25 fdiv_25_40
        fmul_five_eighths_0_3 int_truediv_25_4)
qed

section \<open>The claims\<close>

text \<open>
  Claim C2. For every density and signal state, \<open>select_traffic_rule\<close> returns the rule
  that the seven-row, first-match decision table of spec 4.2 gives, and that rule is one
  of 30, 90, 110 and 184: EMERGENCY gives 184; a density below 0.3 gives 30 for GREEN and
  90 otherwise; a density from 0.3 and below 0.7 gives 110 for YELLOW and 90 otherwise; a
  density from 0.7 gives 110 for RED and 184 otherwise. At the boundary density 0.3 the
  middle rows apply and at 0.7 the last rows apply. The thresholds are the values of the
  float literals of the source.
\<close>

theorem select_traffic_rule_table:
  "first_match rule_table density signal_state = Some (select_traffic_rule density signal_state)
   \<and> select_traffic_rule density signal_state \<in> {30, 90, 110, 184}
   \<and> select_traffic_rule lit_0_3 ''GREEN'' = 90
   \<and> select_traffic_rule lit_0_3 ''YELLOW'' = 110
   \<and> select_traffic_rule lit_0_3 ''RED'' = 90
   \<and> select_traffic_rule lit_0_3 ''EMERGENCY'' = 184
   \<and> select_traffic_rule lit_0_7 ''GREEN'' = 184
   \<and> select_traffic_rule lit_0_7 ''YELLOW'' = 184
   \<and> select_traffic_rule lit_0_7 ''RED'' = 110
   \<and> select_traffic_rule lit_0_7 ''EMERGENCY'' = 184"
proof -
  have lt: "lit_0_3 < lit_0_7"
    by (simp add: lit_0_3_def lit_0_7_def)
  have "first_match rule_table density signal_state
          = Some (select_traffic_rule density signal_state)"
    by (simp add: rule_table_def select_traffic_rule_def)
  moreover have "select_traffic_rule density signal_state \<in> {30, 90, 110, 184}"
    by (simp add: select_traffic_rule_def)
  ultimately show ?thesis
    using lt by (simp add: select_traffic_rule_def)
qed

text \<open>
  Claim C3. For every density in [0,1] and every integer urgency in [0,10],
  \<open>calculate_evolution_steps\<close> returns exactly
  \<open>min 256 (64 + \<lfloor>density * 64\<rfloor> + urgency * 10)\<close>, the cap of 256 being applied to the
  finished sum, and the result lies between 64 and 256 inclusive.
\<close>

theorem calculate_evolution_steps_formula:
  assumes "0 \<le> density" and "density \<le> 1" and "0 \<le> urgency" and "urgency \<le> 10"
  shows "calculate_evolution_steps density urgency
           = min 256 (64 + \<lfloor>density * 64\<rfloor> + urgency * 10)
         \<and> 64 \<le> calculate_evolution_steps density urgency
         \<and> calculate_evolution_steps density urgency \<le> 256"
proof -
  have "0 \<le> density * 64"
    using assms(1) by simp
  then have eq: "calculate_evolution_steps density urgency
           = min 256 (64 + \<lfloor>density * 64\<rfloor> + urgency * 10)"
    by (simp add: calculate_evolution_steps_def py_int_def Let_def min.commute)
  have "0 \<le> \<lfloor>density * 64\<rfloor>"
    using assms(1) by simp
  then show ?thesis
    unfolding eq using assms(3) by simp
qed

text \<open>The end-to-end scenario of spec 8: density 0.2 and urgency 0 give 76 steps.\<close>

theorem calculate_evolution_steps_formula_witness:
  "(0::real) \<le> 1 / 5 \<and> (1::real) / 5 \<le> 1 \<and> (0::int) \<le> 0 \<and> (0::int) \<le> 10
   \<and> calculate_evolution_steps (1 / 5) 0 = 76"
  using calculate_evolution_steps_formula [of "1 / 5" 0] by simp

text \<open>
  Claim C9. For every \<open>signal_states\<close> dictionary whose values include neither RED nor
  YELLOW (all directions EMERGENCY, for example), the overall signal state computed by
  \<open>intersection_hash\<close> is GREEN; the overall state is always one of RED, YELLOW and
  GREEN, never EMERGENCY, and it is the signal state that \<open>intersection_hash\<close> passes to
  \<open>traffic_adaptive_hash\<close>.
\<close>

theorem intersection_overall_state:
  "(''RED'' \<notin> snd ` set signal_states \<and> ''YELLOW'' \<notin> snd ` set signal_states
      \<longrightarrow> overall_state signal_states = ''GREEN'')
   \<and> overall_state signal_states \<in> {''RED'', ''YELLOW'', ''GREEN''}
   \<and> overall_state signal_states \<noteq> ''EMERGENCY''
   \<and> intersection_hash fmt intersection_id timestamp signal_states vehicle_counts weather_factor
       = traffic_adaptive_hash
           (fmt intersection_id timestamp signal_states vehicle_counts weather_factor)
           (min (fmul (min (fdiv (float_of_int (sum_list (map snd vehicle_counts))) 40) 1)
                   weather_factor) 1)
           (overall_state signal_states)
           (min (py_int (int_truediv (sum_list (map snd vehicle_counts)) 4)) 10)"
  by (simp add: overall_state_def intersection_hash_def Let_def)

theorem intersection_overall_state_witness:
  "overall_state [(''north'', ''EMERGENCY''), (''south'', ''EMERGENCY'')] = ''GREEN''"
  using intersection_overall_state [of "[(''north'', ''EMERGENCY''), (''south'', ''EMERGENCY'')]"]
  by simp

text \<open>
  Claim C10. For every input of at least 32 bytes the seeder's result does not depend on
  the density: \<open>init_state\<close> on an automaton of 256 cells returns, for any two
  densities, the same state, namely the first 256 bits of the input; the padding stream
  keyed by the density is not computed.
\<close>

theorem init_state_density_independent:
  assumes "size_ca ca = 256" and "32 \<le> length data"
  shows "init_state ca data density1 = init_state ca data density2
         \<and> (\<exists>ca'. init_state ca data density1 = Inr ca'
                \<and> state_ca ca' = take 256 (bytes_to_bits data)
                \<and> length (state_ca ca') = 256)"
proof -
  have long: "size_ca ca \<le> 8 * length data"
    using assms by simp
  show ?thesis
    using assms by (simp add: init_state_long [OF long] length_bytes_to_bits)
qed

theorem init_state_density_independent_witness:
  "size_ca (new_TrafficAdaptiveCA 256) = 256 \<and> 32 \<le> length (replicate 32 (0x61 :: byte))
   \<and> init_state (new_TrafficAdaptiveCA 256) (replicate 32 0x61) 0
       = init_state (new_TrafficAdaptiveCA 256) (replicate 32 0x61) 1"
  using init_state_density_independent
          [of "new_TrafficAdaptiveCA 256" "replicate 32 0x61" 0 1]
  by (simp add: new_TrafficAdaptiveCA_def)

text \<open>
  Claim C1. For every state of 256 bits, every rule in [0,255] and every radius of at least
  1, one call of \<open>evolve\<close> returns, and each new cell \<open>i\<close> is computed from the window of
  \<open>2 * radius + 1\<close> bits of the old state at offsets \<open>-radius..radius\<close> around \<open>i\<close>
  (indices modulo 256), read as an unsigned number whose most significant bit is the bit
  at offset \<open>-radius\<close>: for radius 1 the new bit is bit number (window value) of the rule,
  and for a larger radius it is bit number (window value mod 8) of the rule XOR (window
  value mod 256).
\<close>

theorem evolve_generation:
  assumes "size_ca ca = 256" and "length (state_ca ca) = 256"
    and "list_all is_bit (state_ca ca)"
    and "0 \<le> rule" and "rule \<le> 255" and "1 \<le> radius"
  shows "\<exists>ca'. evolve ca rule radius = Inr ca' \<and> length (state_ca ca') = 256
           \<and> (\<forall>i<256.
                 length (window (state_ca ca) radius i) = nat (2 * radius + 1)
               \<and> (\<forall>k<nat (2 * radius + 1).
                     window (state_ca ca) radius i ! k
                       = state_ca ca ! nat ((int i - radius + int k) mod 256))
               \<and> window_value (state_ca ca) radius i
                   = (\<Sum>k<nat (2 * radius + 1).
                        window (state_ca ca) radius i ! k * 2 ^ (nat (2 * radius) - k))
               \<and> state_ca ca' ! i =
                   (if radius = 1
                    then of_bool (bit rule (nat (window_value (state_ca ca) radius i)))
                    else of_bool (bit (rule XOR (window_value (state_ca ca) radius i mod 256))
                                      (nat (window_value (state_ca ca) radius i mod 8)))))"
proof -
  let ?st = "state_ca ca"
  let ?n = "nat (2 * radius + 1)"
  have ev: "evolve ca rule radius = Inr (ca\<lparr>state_ca := map (next_bit ?st rule radius) [0..<256]\<rparr>)"
    using assms(1-3) by (rule evolve_next_bit)
  have len: "length (window ?st radius i) = ?n" for i
    by (simp add: window_def)
  have nth: "window ?st radius i ! k = ?st ! nat ((int i - radius + int k) mod 256)"
    if "k < ?n" for i k
  proof -
    have "- radius + int k \<le> radius"
      using that assms(6) by linarith
    then have "[- radius..radius] ! k = - radius + int k"
      by (rule nth_upto)
    moreover have "k < length [- radius..radius]"
      using that by simp
    ultimately show ?thesis
      by (simp add: window_def algebra_simps)
  qed
  have val: "window_value ?st radius i
               = (\<Sum>k<?n. window ?st radius i ! k * 2 ^ (nat (2 * radius) - k))" for i
  proof -
    have "?n - 1 = nat (2 * radius)"
      using assms(6) by linarith
    then show ?thesis
      by (simp add: window_value_def bits_value_def len interv_sum_list_conv_sum_set_nat
          lessThan_atLeast0)
  qed
  have cell: "map (next_bit ?st rule radius) [0..<256] ! i = next_bit ?st rule radius i"
    if "i < 256" for i
    using that by (simp del: upt.simps)
  define ca' where "ca' = ca\<lparr>state_ca := map (next_bit ?st rule radius) [0..<256]\<rparr>"
  have new: "state_ca ca' ! i =
      (if radius = 1 then of_bool (bit rule (nat (window_value ?st radius i)))
       else of_bool (bit (rule XOR (window_value ?st radius i mod 256))
                         (nat (window_value ?st radius i mod 8))))"
    if "i < 256" for i
    unfolding ca'_def using cell [OF that] by (simp add: next_bit_def Let_def del: upt.simps)
  have "evolve ca rule radius = Inr ca'"
    unfolding ca'_def by (rule ev)
  moreover have "length (state_ca ca') = 256"
    unfolding ca'_def by simp
  ultimately show ?thesis
    using len nth val new by blast
qed

theorem evolve_generation_witness:
  "\<exists>ca'. evolve (new_TrafficAdaptiveCA 256) 30 1 = Inr ca' \<and> length (state_ca ca') = 256
         \<and> state_ca ca' ! 0
             = of_bool (bit (30::int)
                 (nat (window_value (state_ca (new_TrafficAdaptiveCA 256)) 1 0)))"
proof -
  have "size_ca (new_TrafficAdaptiveCA 256) = 256"
    and "length (state_ca (new_TrafficAdaptiveCA 256)) = 256"
    and "list_all is_bit (state_ca (new_TrafficAdaptiveCA 256))"
    and "(0::int) \<le> 30" and "(30::int) \<le> 255" and "(1::int) \<le> 1"
    by (simp_all add: new_TrafficAdaptiveCA_def is_bit_def list_all_iff)
  from evolve_generation [OF this] show ?thesis
    by auto
qed

text \<open>
  Claim C6. For every cell index, every radius among 1, 2, 3 and 5 and every offset in
  \<open>-radius..radius\<close>, the neighbourhood lookup of \<open>evolve\<close> reads a position inside the
  256-cell state and raises nothing: the index is \<open>(i + offset) mod 256\<close>, which is
  \<open>i + offset\<close> wrapped once around the ring; at index 0 a negative offset wraps to the
  end of the ring and at index 255 a positive offset wraps to its beginning.
\<close>

theorem neighbor_lookup_in_range:
  assumes "size_ca ca = 256" and "length (state_ca ca) = 256" and "i < 256"
    and "radius \<in> {1, 2, 3, 5}" and "- radius \<le> offset" and "offset \<le> radius"
  shows "\<exists>idx. neighbor_index ca i offset = Inr idx
           \<and> 0 \<le> idx \<and> idx < int (length (state_ca ca))
           \<and> idx = (int i + offset) mod 256
           \<and> idx = (if int i + offset < 0 then int i + offset + 256
                    else if 256 \<le> int i + offset then int i + offset - 256
                    else int i + offset)
           \<and> neighbor ca i offset = Inr (state_ca ca ! nat idx)
           \<and> (i = 0 \<and> offset < 0 \<longrightarrow> idx = 256 + offset)
           \<and> (i = 255 \<and> 0 < offset \<longrightarrow> idx = offset - 1)"
proof -
  let ?idx = "(int i + offset) mod 256"
  have r: "radius \<le> 5" "1 \<le> radius"
    using assms(4) by auto
  have idx: "neighbor_index ca i offset = Inr ?idx"
    using assms(1) by (simp add: neighbor_index_def py_mod_def)
  have range: "0 \<le> ?idx" "?idx < 256"
    by simp_all
  have wrap: "?idx = (if int i + offset < 0 then int i + offset + 256
                     else if 256 \<le> int i + offset then int i + offset - 256
                     else int i + offset)"
  proof -
    have lo: "- 256 \<le> int i + offset" and hi: "int i + offset < 512"
      using r assms(3,5,6) by linarith+
    consider "int i + offset < 0" | "0 \<le> int i + offset \<and> int i + offset < 256"
      | "256 \<le> int i + offset"
      by linarith
    then show ?thesis
    proof cases
      case 1
      then have "(int i + offset + 256) mod 256 = int i + offset + 256"
        using lo by (intro mod_pos_pos_trivial) simp_all
      then show ?thesis using 1 by simp
    next
      case 2
      then show ?thesis by simp
    next
      case 3
      then have "(int i + offset - 256) mod 256 = int i + offset - 256"
        using hi by (intro mod_pos_pos_trivial) simp_all
      moreover have "(int i + offset - 256) mod 256 = ?idx"
        by (simp add: mod_diff_right_eq [symmetric])
      ultimately show ?thesis using 3 by simp
    qed
  qed
  have nb: "neighbor ca i offset = Inr (state_ca ca ! nat ?idx)"
    using assms(1,2) by (rule neighbor_ring)
  have first: "i = 0 \<and> offset < 0 \<longrightarrow> ?idx = 256 + offset"
  proof
    assume "i = 0 \<and> offset < 0"
    then have "int i + offset < 0" by simp
    with wrap have "?idx = int i + offset + 256" by simp
    with \<open>i = 0 \<and> offset < 0\<close> show "?idx = 256 + offset" by simp
  qed
  have last: "i = 255 \<and> 0 < offset \<longrightarrow> ?idx = offset - 1"
  proof
    assume a: "i = 255 \<and> 0 < offset"
    then have "256 \<le> int i + offset" "\<not> int i + offset < 0" by simp_all
    with wrap have "?idx = int i + offset - 256" by simp
    with a show "?idx = offset - 1" by simp
  qed
  show ?thesis
    using idx range wrap nb first last assms(2) by (intro exI [of _ ?idx]) simp
qed

theorem neighbor_lookup_in_range_witness:
  "neighbor_index (new_TrafficAdaptiveCA 256) 0 (- 1) = Inr 255
   \<and> neighbor_index (new_TrafficAdaptiveCA 256) 255 1 = Inr 0"
proof -
  have ca: "size_ca (new_TrafficAdaptiveCA 256) = 256"
      "length (state_ca (new_TrafficAdaptiveCA 256)) = 256"
    by (simp_all add: new_TrafficAdaptiveCA_def)
  have "\<exists>idx. neighbor_index (new_TrafficAdaptiveCA 256) 0 (- 1) = Inr idx \<and> idx = 256 + (- 1)"
    using neighbor_lookup_in_range [OF ca, of 0 1 "- 1"] by auto
  moreover
  have "\<exists>idx. neighbor_index (new_TrafficAdaptiveCA 256) 255 1 = Inr idx \<and> idx = 1 - 1"
    using neighbor_lookup_in_range [OF ca, of 255 1 1] by auto
  ultimately show ?thesis by auto
qed

text \<open>
  Claim C7. The state invariant holds across the whole hash computation: whenever the
  seeder returns, its state has exactly 256 cells; from there every generation returns,
  the state after any number of generations has exactly 256 cells, and every cell of the
  next generation is \<open>next_bit\<close> of the previous generation alone, the new list
  replacing the old one as a whole.
\<close>

theorem state_invariant:
  assumes "init_state (new_TrafficAdaptiveCA 256) data density = Inr ca0"
  shows "length (state_ca ca0) = 256
         \<and> (\<forall>n. \<exists>c c'. evolve_times n rule radius ca0 = Inr c
                 \<and> length (state_ca c) = 256
                 \<and> evolve c rule radius = Inr c'
                 \<and> evolve_times (Suc n) rule radius ca0 = Inr c'
                 \<and> length (state_ca c') = 256
                 \<and> (\<forall>i<256. state_ca c' ! i = next_bit (state_ca c) rule radius i))"
proof -
  from init_state_bit_vector [OF assms]
  have ca0: "size_ca ca0 = 256" "bit_vector (state_ca ca0)" by simp_all
  have step: "\<exists>c c'. evolve_times n rule radius ca0 = Inr c
                 \<and> length (state_ca c) = 256
                 \<and> evolve c rule radius = Inr c'
                 \<and> evolve_times (Suc n) rule radius ca0 = Inr c'
                 \<and> length (state_ca c') = 256
                 \<and> (\<forall>i<256. state_ca c' ! i = next_bit (state_ca c) rule radius i)" for n
  proof -
    from evolve_times_bit_vector [OF ca0, of n rule radius]
    obtain c where c: "evolve_times n rule radius ca0 = Inr c" "size_ca c = 256"
        "bit_vector (state_ca c)"
      by blast
    from evolve_bit_vector [OF c(2,3), of rule radius]
    obtain c' where c': "evolve c rule radius = Inr c'" "bit_vector (state_ca c')"
        "state_ca c' = map (next_bit (state_ca c) rule radius) [0..<256]"
      by blast
    have last: "evolve_times (Suc n) rule radius ca0 = Inr c'"
      by (simp only: evolve_times_Suc_last c(1) c'(1) sum.case)
    have cells: "\<forall>i<256. state_ca c' ! i = next_bit (state_ca c) rule radius i"
      unfolding c'(3) by (simp del: upt.simps)
    show ?thesis
      using c(1,3) c'(1,2) last cells unfolding bit_vector_def by blast
  qed
  show ?thesis
    using ca0(2) step unfolding bit_vector_def by blast
qed

theorem state_invariant_witness:
  "\<exists>ca0 c. init_state (new_TrafficAdaptiveCA 256) (replicate 32 0x61) 0 = Inr ca0
      \<and> length (state_ca ca0) = 256
      \<and> evolve_times 64 30 1 ca0 = Inr c \<and> length (state_ca c) = 256"
proof -
  obtain ca0 where ca0: "init_state (new_TrafficAdaptiveCA 256) (replicate 32 0x61) 0 = Inr ca0"
    using init_state_returns [of "replicate 32 0x61" 0] by auto
  from state_invariant [OF ca0, of 30 1] ca0 show ?thesis
    by blast
qed

text \<open>
  Claim C5. For every text (the empty one included), every density in [0,1], every signal
  state and every urgency in [0,10], \<open>traffic_adaptive_hash\<close> returns the lowercase
  hexadecimal rendering of 32 bytes, a string of exactly 64 characters drawn from
  \<^verbatim>\<open>0123456789abcdef\<close>; in particular the empty text with density 0 is seeded to a
  full state of 256 bits and hashed to such a string.
\<close>

theorem traffic_adaptive_hash_format:
  assumes "0 \<le> density" and "density \<le> 1" and "0 \<le> urgency" and "urgency \<le> 10"
  shows "(\<exists>bs. traffic_adaptive_hash data density signal_state urgency = Inr (hex bs)
            \<and> length bs = 32 \<and> length (hex bs) = 64
            \<and> set (hex bs) \<subseteq> set ''0123456789abcdef'')
         \<and> (\<exists>ca h. init_state (new_TrafficAdaptiveCA 256) [] 0 = Inr ca
               \<and> bit_vector (state_ca ca)
               \<and> traffic_adaptive_hash [] 0 signal_state urgency = Inr h
               \<and> length h = 64 \<and> set h \<subseteq> set ''0123456789abcdef'')"
proof -
  have fmt: "\<exists>bs. traffic_adaptive_hash bytes d signal_state urgency = Inr (hex bs)
            \<and> length bs = 32 \<and> length (hex bs) = 64
            \<and> set (hex bs) \<subseteq> set ''0123456789abcdef''"
    if "0 \<le> d" "d \<le> 1" for bytes d
  proof -
    from py_int_unit [OF that]
    obtain ca where "init_state (new_TrafficAdaptiveCA 256) bytes d = Inr ca"
      using init_state_returns [of bytes d] by blast
    from hash_after_seed [OF this, of signal_state urgency]
    obtain bs where "traffic_adaptive_hash bytes d signal_state urgency = Inr (hex bs)"
        "length bs = 32"
      by blast
    then show ?thesis
      using hex_chars [of bs] by (auto simp only: length_hex)
  qed
  obtain ca where ca: "init_state (new_TrafficAdaptiveCA 256) [] 0 = Inr ca"
    using init_state_returns [of "[]" 0] py_int_unit [of 0] by auto
  from init_state_bit_vector [OF ca] have "bit_vector (state_ca ca)" by simp
  with ca fmt [of 0 "[]"] fmt [OF assms(1,2), of data] show ?thesis
    by fastforce
qed

theorem traffic_adaptive_hash_format_witness:
  "\<exists>h. traffic_adaptive_hash [] 0 ''GREEN'' 0 = Inr h \<and> length h = 64"
  using traffic_adaptive_hash_format [of 0 0 "[]" "''GREEN''"] by auto

text \<open>
  Claim C4, as stated: for every text and every context, also with a density outside
  [0,1], an urgency outside [0,10] or an unrecognized signal state, the hash signals no
  error, density and urgency being treated as clamped. This fails: the empty text with
  density 2 raises ValueError (the seed byte 510 is not a byte), and the step count is
  computed from the values as given, 192 for density 2 where the clamped density 1 gives
  128, and 256 for urgency 15 at density 1 where the clamped urgency 10 gives 228.
\<close>

theorem clamping_counterexample:
  "traffic_adaptive_hash [] 2 ''GREEN'' 0 = Inl ValueError
   \<and> calculate_evolution_steps 1 15 = 256
   \<and> calculate_evolution_steps 1 10 = 228
   \<and> calculate_evolution_steps 2 0 = 192
   \<and> calculate_evolution_steps 1 0 = 128"
  by (simp add: traffic_adaptive_hash_def init_state_def new_TrafficAdaptiveCA_def
      bytes_to_bits_def bytes_of_ints_def py_int_def fmul_2_255 calculate_evolution_steps_def
      Let_def)

text \<open>
  Claim C4, amended. For every text, every density in [0,1], every integer urgency and
  every signal state string, recognized or not, the hash signals no error. An
  unrecognized signal state is treated as the default: radius 1 and the "other states"
  rows of the rule table (90 below 0.7, 184 from 0.7 on), so that any two unrecognized
  strings give the same hash.
\<close>

theorem traffic_adaptive_hash_no_error:
  assumes "0 \<le> density" and "density \<le> 1"
  shows "(\<exists>h. traffic_adaptive_hash data density signal_state urgency = Inr h)
         \<and> (signal_state \<notin> {''GREEN'', ''YELLOW'', ''RED'', ''EMERGENCY''} \<longrightarrow>
               adapt_neighborhood signal_state = 1
             \<and> select_traffic_rule density signal_state = (if density < lit_0_7 then 90 else 184)
             \<and> (\<forall>other. other \<notin> {''GREEN'', ''YELLOW'', ''RED'', ''EMERGENCY''} \<longrightarrow>
                   traffic_adaptive_hash data density other urgency
                     = traffic_adaptive_hash data density signal_state urgency))"
proof -
  have lt: "lit_0_3 < lit_0_7"
    by (simp add: lit_0_3_def lit_0_7_def)
  obtain ca where "init_state (new_TrafficAdaptiveCA 256) data density = Inr ca"
    using init_state_returns [of data density] py_int_unit [OF assms] by blast
  from hash_after_seed [OF this, of signal_state urgency]
  have ret: "\<exists>h. traffic_adaptive_hash data density signal_state urgency = Inr h"
    by blast
  have dflt: "adapt_neighborhood s = 1
              \<and> select_traffic_rule density s = (if density < lit_0_7 then 90 else 184)"
    if "s \<notin> {''GREEN'', ''YELLOW'', ''RED'', ''EMERGENCY''}" for s
    using that lt by (simp add: adapt_neighborhood_def select_traffic_rule_def)
  have same: "traffic_adaptive_hash data density other urgency
                = traffic_adaptive_hash data density signal_state urgency"
    if "signal_state \<notin> {''GREEN'', ''YELLOW'', ''RED'', ''EMERGENCY''}"
      and "other \<notin> {''GREEN'', ''YELLOW'', ''RED'', ''EMERGENCY''}" for other
    unfolding traffic_adaptive_hash_def using dflt [OF that(1)] dflt [OF that(2)]
    by (simp only:)
  show ?thesis
    using ret dflt same by blast
qed

theorem traffic_adaptive_hash_no_error_witness:
  "(\<exists>h. traffic_adaptive_hash [] (1 / 2) ''BLUE'' 25 = Inr h)
   \<and> adapt_neighborhood ''BLUE'' = 1
   \<and> select_traffic_rule (1 / 2) ''BLUE'' = 90
   \<and> traffic_adaptive_hash [] (1 / 2) ''FLASHING'' 25 = traffic_adaptive_hash [] (1 / 2) ''BLUE'' 25"
proof -
  have d: "(0::real) \<le> 1 / 2" "(1::real) / 2 \<le> 1"
    by simp_all
  have blue: "''BLUE'' \<notin> {''GREEN'', ''YELLOW'', ''RED'', ''EMERGENCY''}"
    by simp
  have flashing: "''FLASHING'' \<notin> {''GREEN'', ''YELLOW'', ''RED'', ''EMERGENCY''}"
    by simp
  have half: "(1::real) / 2 < lit_0_7"
    by (simp add: lit_0_7_def)
  note t = traffic_adaptive_hash_no_error [OF d, of "[]" "''BLUE''" 25]
  from t have ret: "\<exists>h. traffic_adaptive_hash [] (1 / 2) ''BLUE'' 25 = Inr h"
    by (rule conjunct1)
  from t [THEN conjunct2, THEN mp, OF blue]
  have radius: "adapt_neighborhood ''BLUE'' = 1"
    and rule: "select_traffic_rule (1 / 2) ''BLUE'' = (if (1::real) / 2 < lit_0_7 then 90 else 184)"
    and other: "\<forall>other. other \<notin> {''GREEN'', ''YELLOW'', ''RED'', ''EMERGENCY''} \<longrightarrow>
                   traffic_adaptive_hash [] (1 / 2) other 25
                     = traffic_adaptive_hash [] (1 / 2) ''BLUE'' 25"
    by blast+
  from rule half have rule90: "select_traffic_rule (1 / 2) ''BLUE'' = 90"
    by (simp only: if_True)
  from other [THEN spec, THEN mp, OF flashing]
  have same: "traffic_adaptive_hash [] (1 / 2) ''FLASHING'' 25
                = traffic_adaptive_hash [] (1 / 2) ''BLUE'' 25" .
  from ret radius rule90 same show ?thesis
    by (intro conjI)
qed



end
